theory Spec2Isabelle
  imports Main
begin

section \<open>Python string primitives used by LogicReducer.py\<close>

text \<open>
  A Python \<open>str\<close> is modelled as a \<open>string\<close> whose characters stand for the code points
  below 256.  Exceptions are values of the type \<open>error\<close>; a computation that may raise
  returns \<open>error + 'a\<close> with \<open>Inl\<close> for the exception.  The interpreter's resource limits
  (recursion depth, memory, the configurable digit limit of decimal conversion) are not
  modelled.
\<close>

datatype error = ValueError string | IndexError | CalledProcessError string

text \<open>\<open>str.isspace\<close> on the code points below 256; \<open>str.strip()\<close> removes these.\<close>

definition isspace :: "char \<Rightarrow> bool" where
  "isspace c \<longleftrightarrow> c \<in> {CHR 0x09, CHR 0x0A, CHR 0x0B, CHR 0x0C, CHR 0x0D,
      CHR 0x1C, CHR 0x1D, CHR 0x1E, CHR 0x1F, CHR 0x20, CHR 0x85, CHR 0xA0}"

definition strip :: "string \<Rightarrow> string" where
  "strip s = rev (dropWhile isspace (rev (dropWhile isspace s)))"

text \<open>\<open>s.split(sep)\<close> for a one-character separator: every occurrence splits, empty
  pieces are kept, and the result is never empty.\<close>

fun py_split :: "char \<Rightarrow> string \<Rightarrow> string list" where
  "py_split sep [] = [[]]"
| "py_split sep (c # cs) =
     (if c = sep then [] # py_split sep cs
      else (c # hd (py_split sep cs)) # tl (py_split sep cs))"

text \<open>\<open>s.replace(old, new, 1)\<close> for one-character \<open>old\<close> and \<open>new\<close>: only the first
  occurrence is replaced.\<close>

fun replace_first :: "char \<Rightarrow> char \<Rightarrow> string \<Rightarrow> string" where
  "replace_first old new [] = []"
| "replace_first old new (c # cs) =
     (if c = old then new # cs else c # replace_first old new cs)"

text \<open>\<open>s.replace(c, '')\<close>: every occurrence of the character is removed.\<close>

definition remove_all :: "char \<Rightarrow> string \<Rightarrow> string" where
  "remove_all c s = filter (\<lambda>d. d \<noteq> c) s"

subsection \<open>\<open>int(s, 2)\<close>\<close>

text \<open>
  The conversion skips surrounding whitespace (a smaller set than \<open>isspace\<close>), accepts one
  sign, the prefix \<open>0b\<close> or \<open>0B\<close> followed by at most one underscore, and then a non-empty
  run of binary digits in which single underscores may separate digits.  Anything else
  raises \<open>ValueError\<close>, whose message quotes the argument.
\<close>

definition int_space :: "char \<Rightarrow> bool" where
  "int_space c \<longleftrightarrow> c \<in> {CHR 0x09, CHR 0x0A, CHR 0x0B, CHR 0x0C, CHR 0x0D, CHR 0x20,
      CHR 0x85, CHR 0xA0}"

definition is_bit :: "char \<Rightarrow> bool" where
  "is_bit c \<longleftrightarrow> c = CHR ''0'' \<or> c = CHR ''1''"

definition body_char :: "char \<Rightarrow> bool" where
  "body_char c \<longleftrightarrow> is_bit c \<or> c = CHR ''_''"

fun no_double_underscore :: "string \<Rightarrow> bool" where
  "no_double_underscore (a # b # r) =
     ((a \<noteq> CHR ''_'' \<or> b \<noteq> CHR ''_'') \<and> no_double_underscore (b # r))"
| "no_double_underscore r = True"

definition strip_sign :: "string \<Rightarrow> bool \<times> string" where
  "strip_sign s =
     (case s of
        [] \<Rightarrow> (False, [])
      | c # r \<Rightarrow> if c = CHR ''+'' then (False, r)
                else if c = CHR ''-'' then (True, r)
                else (False, s))"

definition strip_prefix2 :: "string \<Rightarrow> string" where
  "strip_prefix2 s =
     (case s of
        a # b # r \<Rightarrow>
          if a = CHR ''0'' \<and> (b = CHR ''b'' \<or> b = CHR ''B'')
          then (case r of [] \<Rightarrow> r | u # r' \<Rightarrow> if u = CHR ''_'' then r' else r)
          else s
      | _ \<Rightarrow> s)"

definition bin_value :: "string \<Rightarrow> int" where
  "bin_value ds = foldl (\<lambda>a c. 2 * a + (if c = CHR ''1'' then 1 else 0)) 0 ds"

definition py_int2 :: "string \<Rightarrow> error + int" where
  "py_int2 s =
     (let (neg, t) = strip_sign (dropWhile int_space s);
          u = strip_prefix2 t;
          body = takeWhile body_char u;
          rest = dropWhile int_space (dropWhile body_char u)
      in if body = [] \<or> hd body = CHR ''_'' \<or> last body = CHR ''_''
            \<or> \<not> no_double_underscore body \<or> rest \<noteq> []
         then Inl (ValueError s)
         else Inr ((if neg then - 1 else 1) * bin_value (remove_all CHR ''_'' body)))"

subsection \<open>\<open>str\<close> of integers and of lists of integers\<close>







section \<open>Wildcard expansion: \<open>fromRowToNumbers\<close>\<close>

text \<open>
  The number of wildcard symbols of a string is the measure of the recursion: replacing the
  first \<open>x\<close> by a digit removes exactly one of them.
\<close>

definition wildcards :: "string \<Rightarrow> nat" where
  "wildcards s = length (filter (\<lambda>c. c = CHR ''x'') s)"

lemma wildcards_replace_first:
  "CHR ''x'' \<in> set s \<Longrightarrow> new \<noteq> CHR ''x'' \<Longrightarrow>
     Suc (wildcards (replace_first CHR ''x'' new s)) = wildcards s"
  by (induction s) (auto simp: wildcards_def)

function fromRowToNumbers :: "string \<Rightarrow> error + int list" where
  "fromRowToNumbers input =
     (if CHR ''x'' \<in> set input then
        (case fromRowToNumbers (replace_first CHR ''x'' CHR ''0'' input) of
           Inl e \<Rightarrow> Inl e
         | Inr zeros \<Rightarrow>
            (case fromRowToNumbers (replace_first CHR ''x'' CHR ''1'' input) of
               Inl e \<Rightarrow> Inl e
             | Inr ones \<Rightarrow> Inr (zeros @ ones)))
      else
        (case py_int2 (remove_all CHR '' '' input) of
           Inl e \<Rightarrow> Inl e
         | Inr n \<Rightarrow> Inr [n]))"
  by pat_completeness auto
termination
proof (relation "measure wildcards")
  show "wf (measure wildcards)" by simp
next
  fix input :: string
  assume "CHR ''x'' \<in> set input"
  then show "(replace_first CHR ''x'' CHR ''0'' input, input) \<in> measure wildcards"
    using wildcards_replace_first [of input "CHR ''0''"] by simp
next
  fix input :: string and zeros :: "int list"
  assume "CHR ''x'' \<in> set input"
  then show "(replace_first CHR ''x'' CHR ''1'' input, input) \<in> measure wildcards"
    using wildcards_replace_first [of input "CHR ''1''"] by simp
qed

declare fromRowToNumbers.simps [simp del]

section \<open>The table-to-minterm part of \<open>main\<close>\<close>

text \<open>
  \<open>main\<close> receives the lines of the file as \<open>readlines()\<close> returns them.  Indexing a list
  beyond its end raises \<open>IndexError\<close>.
\<close>

definition nth_item :: "'a list \<Rightarrow> nat \<Rightarrow> error + 'a" where
  "nth_item xs i = (if i < length xs then Inr (xs ! i) else Inl IndexError)"

type_synonym sets = "int list list \<times> int list list"

text \<open>The loop over \<open>enumerate(outputs)\<close>: \<open>index\<close> is the position of \<open>out\<close> in the row.
  The lists \<open>minterms[index]\<close> and \<open>dnc[index]\<close> are only touched for the tokens \<open>1\<close> and
  \<open>x\<close>; any other token passes without access.\<close>

fun classify :: "int list \<Rightarrow> nat \<Rightarrow> string list \<Rightarrow> sets \<Rightarrow> error + sets" where
  "classify inputs index [] (minterms, dnc) = Inr (minterms, dnc)"
| "classify inputs index (out # outputs) (minterms, dnc) =
     (if out = ''1'' then
        (if index < length minterms
         then classify inputs (Suc index) outputs
                (minterms[index := minterms ! index @ inputs], dnc)
         else Inl IndexError)
      else if out = ''x'' then
        (if index < length dnc
         then classify inputs (Suc index) outputs
                (minterms, dnc[index := dnc ! index @ inputs])
         else Inl IndexError)
      else classify inputs (Suc index) outputs (minterms, dnc))"

text \<open>The body of \<open>for line in lines\<close>.\<close>

definition processLine :: "string \<Rightarrow> sets \<Rightarrow> error + sets" where
  "processLine line st =
     (let parts = py_split CHR ''|'' line in
      case fromRowToNumbers (strip (hd parts)) of
        Inl e \<Rightarrow> Inl e
      | Inr inputs \<Rightarrow>
         (case nth_item parts 1 of
            Inl e \<Rightarrow> Inl e
          | Inr seg \<Rightarrow> classify inputs 0 (py_split CHR '' '' (strip seg)) st))"

fun processLines :: "string list \<Rightarrow> sets \<Rightarrow> error + sets" where
  "processLines [] st = Inr st"
| "processLines (line # rest) st =
     (case processLine line st of
        Inl e \<Rightarrow> Inl e
      | Inr st' \<Rightarrow> processLines rest st')"

definition inputCount :: "string \<Rightarrow> nat" where
  "inputCount first = length (py_split CHR '' '' (strip (hd (py_split CHR ''|'' first))))"

definition outFuncCount :: "string \<Rightarrow> error + nat" where
  "outFuncCount first =
     (case nth_item (py_split CHR ''|'' first) 1 of
        Inl e \<Rightarrow> Inl e
      | Inr seg \<Rightarrow> Inr (length (py_split CHR '' '' (strip seg))))"

text \<open>\<open>main\<close> from \<open>lines = f.readlines()\<close> to the end of the loop over the lines: the
  counts come from \<open>lines[0]\<close>, and the loop runs over all of \<open>lines\<close>, \<open>lines[0]\<close>
  included.  The result is \<open>inputCount\<close>, \<open>minterms\<close> and \<open>dnc\<close>.\<close>

definition main_compile :: "string list \<Rightarrow> error + (nat \<times> int list list \<times> int list list)" where
  "main_compile lines =
     (case nth_item lines 0 of
        Inl e \<Rightarrow> Inl e
      | Inr first \<Rightarrow>
         (case outFuncCount first of
            Inl e \<Rightarrow> Inl e
          | Inr k \<Rightarrow>
             (case processLines lines (replicate k [], replicate k []) of
                Inl e \<Rightarrow> Inl e
              | Inr (minterms, dnc) \<Rightarrow> Inr (inputCount first, minterms, dnc))))"

section \<open>Handing the sets to the reducer\<close>

text \<open>
  The reducer is an external process.  It is a parameter of the model: a function from the
  command line to what the process wrote (\<open>stdout\<close> as decoded text, \<open>stderr\<close> as bytes).
  A run of \<open>main\<close> is observed as the sequence of lines it prints and commands it runs,
  together with the exception that ended it, if any.
\<close>

record runResult =
  stdout :: string
  stderr :: string

datatype event = Print string | Run string






text \<open>The commands a run executed, in order.\<close>

definition commands_run :: "event list \<Rightarrow> string list" where
  "commands_run evs = concat (map (\<lambda>ev. case ev of Run c \<Rightarrow> [c] | Print _ \<Rightarrow> []) evs)"

text \<open>
  The number of commands a run executes out of a list of commands: the reducer is
  invoked for one command after the other, and the first invocation that writes to its
  error stream is the last.
\<close>

fun invocations :: "(string \<Rightarrow> runResult) \<Rightarrow> string list \<Rightarrow> nat" where
  "invocations reducer [] = 0"
| "invocations reducer (cmd # cmds) =
     (if stderr (reducer cmd) \<noteq> [] then 1 else Suc (invocations reducer cmds))"




section \<open>The expansion order and the rows in the words of the specification\<close>

text \<open>
  The specification describes the result of the expansion as the list of all assignments
  of bits to the wildcard positions, the first wildcard varying slowest and \<open>0\<close> coming
  before \<open>1\<close>, each assignment substituted into the pattern and read in base 2.
  \<open>spec_assignments k\<close> lists the assignments to \<open>k\<close> wildcards in that order, and
  \<open>spec_fill p bs\<close> substitutes the assignment \<open>bs\<close> into the pattern \<open>p\<close>.
\<close>

fun spec_assignments :: "nat \<Rightarrow> bool list list" where
  "spec_assignments 0 = [[]]"
| "spec_assignments (Suc k) =
     map ((#) False) (spec_assignments k) @ map ((#) True) (spec_assignments k)"

definition bit_char :: "bool \<Rightarrow> char" where
  "bit_char b = (if b then CHR ''1'' else CHR ''0'')"

fun spec_fill :: "string \<Rightarrow> bool list \<Rightarrow> string" where
  "spec_fill [] bs = []"
| "spec_fill (c # cs) bs =
     (if c = CHR ''x'' then
        (case bs of [] \<Rightarrow> c # cs | b # bs' \<Rightarrow> bit_char b # spec_fill cs bs')
      else c # spec_fill cs bs)"

text \<open>
  A well-formed data row in the words of the specification, for \<open>n\<close> inputs and \<open>k\<close>
  outputs: exactly one separator; an input segment that, with its whitespace removed, is a
  pattern of \<open>n\<close> symbols from \<open>{0, 1, x}\<close>; and an output segment that, split on
  whitespace, gives \<open>k\<close> symbols from \<open>{0, 1, x}\<close>.  Splitting on whitespace cuts the
  segment at every whitespace character and keeps the pieces that are not empty, so that
  runs of whitespace and whitespace other than the space separate symbols as well.
\<close>

fun spec_whitespace_split :: "string \<Rightarrow> string list" where
  "spec_whitespace_split [] = [[]]"
| "spec_whitespace_split (c # cs) =
     (if isspace c then [] # spec_whitespace_split cs
      else (c # hd (spec_whitespace_split cs)) # tl (spec_whitespace_split cs))"

definition spec_symbols :: "string \<Rightarrow> string list" where
  "spec_symbols s = filter (\<lambda>w. w \<noteq> []) (spec_whitespace_split s)"

definition spec_well_formed_row :: "nat \<Rightarrow> nat \<Rightarrow> string \<Rightarrow> bool" where
  "spec_well_formed_row n k line \<longleftrightarrow>
     (let parts = py_split CHR ''|'' line in
      length parts = 2 \<and>
      set (filter (\<lambda>c. \<not> isspace c) (parts ! 0)) \<subseteq> {CHR ''0'', CHR ''1'', CHR ''x''} \<and>
      length (filter (\<lambda>c. \<not> isspace c) (parts ! 0)) = n \<and>
      set (spec_symbols (parts ! 1)) \<subseteq> {''0'', ''1'', ''x''} \<and>
      length (spec_symbols (parts ! 1)) = k)"

text \<open>
  A row as the code tokenises it.  The code removes the space character only from the
  input pattern (\<open>replace(' ', '')\<close>) and cuts the output segment at every single space
  (\<open>split(' ')\<close>), keeping empty pieces.  A single-spaced row for \<open>n\<close> inputs and \<open>k\<close>
  outputs has exactly one separator; its input segment, stripped, consists of \<open>0\<close>, \<open>1\<close>,
  \<open>x\<close> and spaces, \<open>n\<close> symbols in all; and its output segment, stripped and cut at
  every space, gives \<open>k\<close> pieces, each of them \<open>0\<close>, \<open>1\<close> or \<open>x\<close>: its output symbols
  are separated by exactly one space each.
\<close>

definition single_spaced_row :: "nat \<Rightarrow> nat \<Rightarrow> string \<Rightarrow> bool" where
  "single_spaced_row n k line \<longleftrightarrow>
     (let parts = py_split CHR ''|'' line in
      length parts = 2 \<and>
      set (strip (parts ! 0)) \<subseteq> {CHR ''0'', CHR ''1'', CHR ''x'', CHR '' ''} \<and>
      length (remove_all CHR '' '' (strip (parts ! 0))) = n \<and>
      set (py_split CHR '' '' (strip (parts ! 1))) \<subseteq> {''0'', ''1'', ''x''} \<and>
      length (py_split CHR '' '' (strip (parts ! 1))) = k)"

text \<open>
  Among the code points below 256, which are the characters of this model, the ones that
  can occur in an argument that \<open>int(s, 2)\<close> accepts: its whitespace, the signs, the
  binary digits, the underscore and the letter of the prefix.  Beyond that range the
  conversion also accepts the decimal digits of other scripts whose value is 0 or 1, and
  further whitespace; a pattern with such a character is outside the model.
\<close>

definition int2_char :: "char \<Rightarrow> bool" where
  "int2_char c \<longleftrightarrow> int_space c \<or> c \<in> set ''+-01_bB''"

section \<open>Termination of the expansion\<close>

text \<open>
  C8.  The wildcard expansion terminates on every input string: every argument lies in the
  domain of \<open>fromRowToNumbers\<close> (the chains of recursive calls starting from it are all
  finite), and each of the two recursive calls is made on a string with strictly fewer
  \<open>x\<close> symbols than the argument.  The rest of the compilation is a pair of loops over
  finite lists.
\<close>

theorem fromRowToNumbers_total:
  "fromRowToNumbers_dom input \<and>
   (CHR ''x'' \<in> set input \<longrightarrow>
      wildcards (replace_first CHR ''x'' CHR ''0'' input) < wildcards input \<and>
      wildcards (replace_first CHR ''x'' CHR ''1'' input) < wildcards input)"
proof
  show "fromRowToNumbers_dom input"
  proof (induction input rule: measure_induct_rule [where f = wildcards])
    case (less s)
    show ?case
    proof (rule accpI)
      fix t
      assume "fromRowToNumbers_rel t s"
      then have "wildcards t < wildcards s"
        using wildcards_replace_first [of s "CHR ''0''"] wildcards_replace_first [of s "CHR ''1''"]
        by (cases rule: fromRowToNumbers_rel.cases) auto
      then show "fromRowToNumbers_dom t" by (rule less.IH)
    qed
  qed
next
  show "CHR ''x'' \<in> set input \<longrightarrow>
      wildcards (replace_first CHR ''x'' CHR ''0'' input) < wildcards input \<and>
      wildcards (replace_first CHR ''x'' CHR ''1'' input) < wildcards input"
    using wildcards_replace_first [of input "CHR ''0''"] wildcards_replace_first [of input "CHR ''1''"]
    by auto
qed

theorem fromRowToNumbers_total_witness:
  "CHR ''x'' \<in> set ''1x0'' \<and> fromRowToNumbers_dom ''1x0'' \<and>
   wildcards (replace_first CHR ''x'' CHR ''0'' ''1x0'') < wildcards ''1x0'' \<and>
   wildcards (replace_first CHR ''x'' CHR ''1'' ''1x0'') < wildcards ''1x0''"
  using fromRowToNumbers_total [of "''1x0''"] by simp

section \<open>Expansion of patterns over the alphabet\<close>

lemma py_split_nonempty: "py_split sep s \<noteq> []"
  by (induction s) auto

lemma inputCount_positive: "0 < inputCount first"
  by (simp add: inputCount_def py_split_nonempty)

lemma no_underscore_no_double: "CHR ''_'' \<notin> set s \<Longrightarrow> no_double_underscore s"
  by (induction s rule: no_double_underscore.induct) auto

lemma py_int2_bits:
  assumes "s \<noteq> []" and "\<forall>c\<in>set s. is_bit c"
  shows "py_int2 s = Inr (bin_value s)"
proof -
  obtain c r where s: "s = c # r" using assms(1) by (cases s) auto
  have c: "is_bit c" using assms(2) s by simp
  have nospace: "dropWhile int_space s = s"
    using c by (auto simp: s int_space_def is_bit_def)
  have sign: "strip_sign s = (False, s)"
    using c by (auto simp: s strip_sign_def is_bit_def)
  have pre: "strip_prefix2 s = s"
  proof (cases r)
    case Nil then show ?thesis by (simp add: s strip_prefix2_def)
  next
    case (Cons b r')
    then have "is_bit b" using assms(2) s by simp
    then show ?thesis by (auto simp: s Cons strip_prefix2_def is_bit_def)
  qed
  have all: "\<forall>c\<in>set s. body_char c" using assms(2) by (simp add: body_char_def)
  have tk: "takeWhile body_char s = s" using all by (simp add: takeWhile_eq_all_conv)
  have dr: "dropWhile body_char s = []" using all by simp
  have nu: "CHR ''_'' \<notin> set s" using assms(2) by (auto simp: is_bit_def)
  have hd: "hd s \<noteq> CHR ''_''" using nu s by auto
  have lst: "last s \<noteq> CHR ''_''" using nu assms(1) last_in_set by metis
  have rm: "remove_all CHR ''_'' s = s" using nu by (auto simp: remove_all_def filter_id_conv)
  show ?thesis
    unfolding py_int2_def nospace sign
    by (simp add: pre tk dr hd lst rm no_underscore_no_double [OF nu] assms(1))
qed

lemma bin_value_snoc:
  "bin_value (t @ [c]) = 2 * bin_value t + (if c = CHR ''1'' then 1 else 0)"
  by (simp add: bin_value_def)

lemma bin_value_bounds: "0 \<le> bin_value t \<and> bin_value t < 2 ^ length t"
  by (induction t rule: rev_induct) (auto simp: bin_value_snoc bin_value_def)

lemma bin_value_bit:
  "bit (bin_value t) j \<longleftrightarrow> j < length t \<and> t ! (length t - 1 - j) = CHR ''1''"
proof (induction t arbitrary: j rule: rev_induct)
  case Nil
  then show ?case by (simp add: bin_value_def)
next
  case (snoc c t)
  show ?case
  proof (cases j)
    case 0
    then show ?thesis by (simp add: bin_value_snoc bit_0)
  next
    case (Suc j')
    have "bit (bin_value (t @ [c])) (Suc j') \<longleftrightarrow> bit (bin_value t) j'"
      by (simp add: bin_value_snoc bit_Suc)
    also have "\<dots> \<longleftrightarrow> j' < length t \<and> t ! (length t - 1 - j') = CHR ''1''"
      by (rule snoc.IH)
    also have "\<dots> \<longleftrightarrow> Suc j' < length (t @ [c]) \<and>
        (t @ [c]) ! (length (t @ [c]) - 1 - Suc j') = CHR ''1''"
      by (auto simp: nth_append)
    finally show ?thesis using Suc by simp
  qed
qed

lemma spec_fill_replace:
  "CHR ''x'' \<in> set p \<Longrightarrow>
     spec_fill p (b # bs) = spec_fill (replace_first CHR ''x'' (bit_char b) p) bs"
  by (induction p) (auto simp: bit_char_def)

lemma spec_fill_no_wildcard: "CHR ''x'' \<notin> set p \<Longrightarrow> spec_fill p bs = p"
  by (induction p) auto

lemma length_spec_fill: "length (spec_fill p bs) = length p"
proof (induction p arbitrary: bs)
  case Nil
  show ?case by simp
next
  case (Cons c cs)
  show ?case by (cases bs) (simp_all add: Cons.IH)
qed


lemma spec_fill_literal:
  "i < length p \<Longrightarrow> p ! i \<noteq> CHR ''x'' \<Longrightarrow> spec_fill p bs ! i = p ! i"
proof (induction p arbitrary: i bs)
  case Nil
  then show ?case by simp
next
  case (Cons c cs)
  show ?case
  proof (cases i)
    case 0
    then show ?thesis using Cons.prems by simp
  next
    case (Suc j)
    then have "spec_fill cs bs' ! j = cs ! j" for bs'
      using Cons.prems Cons.IH [of j bs'] by simp
    then show ?thesis using Suc by (cases bs) simp_all
  qed
qed

lemma spec_fill_bits:
  "set p \<subseteq> {CHR ''0'', CHR ''1'', CHR ''x''} \<Longrightarrow> wildcards p \<le> length bs \<Longrightarrow>
     \<forall>c\<in>set (spec_fill p bs). is_bit c"
proof (induction p arbitrary: bs)
  case Nil
  show ?case by simp
next
  case (Cons c cs)
  show ?case
  proof (cases "c = CHR ''x''")
    case True
    then obtain b r where bs: "bs = b # r"
      using Cons.prems(2) by (cases bs) (auto simp: wildcards_def)
    have "wildcards cs \<le> length r"
      using Cons.prems(2) True bs by (simp add: wildcards_def)
    then have "\<forall>c\<in>set (spec_fill cs r). is_bit c"
      using Cons.IH [of r] Cons.prems(1) by simp
    then show ?thesis using True bs by (simp add: is_bit_def bit_char_def)
  next
    case False
    have "wildcards cs \<le> length bs"
      using Cons.prems(2) False by (simp add: wildcards_def)
    then have "\<forall>c\<in>set (spec_fill cs bs). is_bit c"
      using Cons.IH [of bs] Cons.prems(1) by simp
    moreover have "is_bit c" using Cons.prems(1) False by (simp add: is_bit_def)
    ultimately show ?thesis using False by simp
  qed
qed

lemma spec_fill_inj:
  "length bs = wildcards p \<Longrightarrow> length bs' = wildcards p \<Longrightarrow>
     spec_fill p bs = spec_fill p bs' \<Longrightarrow> bs = bs'"
proof (induction p arbitrary: bs bs')
  case Nil
  then show ?case by (simp add: wildcards_def)
next
  case (Cons c cs)
  show ?case
  proof (cases "c = CHR ''x''")
    case True
    then obtain b r b' r' where bs: "bs = b # r" "bs' = b' # r'"
      using Cons.prems by (cases bs; cases bs') (auto simp: wildcards_def)
    then have "bit_char b = bit_char b'" "spec_fill cs r = spec_fill cs r'"
      using Cons.prems True by auto
    moreover have "length r = wildcards cs" "length r' = wildcards cs"
      using Cons.prems True bs by (auto simp: wildcards_def)
    ultimately show ?thesis
      using Cons.IH [of r r'] bs by (auto simp: bit_char_def split: if_splits)
  next
    case False
    then show ?thesis using Cons by (auto simp: wildcards_def)
  qed
qed

lemma length_spec_assignments: "length (spec_assignments k) = 2 ^ k"
  by (induction k) auto

lemma spec_assignments_length: "bs \<in> set (spec_assignments k) \<Longrightarrow> length bs = k"
  by (induction k arbitrary: bs) auto

lemma distinct_spec_assignments: "distinct (spec_assignments k)"
  by (induction k) (auto simp: distinct_map)

lemma bin_value_inj:
  assumes "length s = length t" "\<forall>c\<in>set s. is_bit c" "\<forall>c\<in>set t. is_bit c"
    and "bin_value s = bin_value t"
  shows "s = t"
proof (rule nth_equalityI)
  show "length s = length t" by fact
next
  fix i assume i: "i < length s"
  have "bit (bin_value s) (length s - 1 - i) \<longleftrightarrow> bit (bin_value t) (length s - 1 - i)"
    using assms(4) by simp
  then have "s ! i = CHR ''1'' \<longleftrightarrow> t ! i = CHR ''1''"
    using i assms(1) by (auto simp: bin_value_bit)
  moreover have "is_bit (s ! i)" "is_bit (t ! i)"
    using i assms by auto
  ultimately show "s ! i = t ! i" by (auto simp: is_bit_def)
qed

lemma set_replace_first:
  "set (replace_first old new s) \<subseteq> insert new (set s)"
  by (induction s) auto

lemma length_replace_first: "length (replace_first old new s) = length s"
  by (induction s) auto

lemma fromRowToNumbers_spec:
  "set p \<subseteq> {CHR ''0'', CHR ''1'', CHR ''x''} \<Longrightarrow> p \<noteq> [] \<Longrightarrow>
     fromRowToNumbers p =
       Inr (map (\<lambda>bs. bin_value (spec_fill p bs)) (spec_assignments (wildcards p)))"
proof (induction p rule: fromRowToNumbers.induct)
  case (1 p)
  show ?case
  proof (cases "CHR ''x'' \<in> set p")
    case True
    let ?p0 = "replace_first CHR ''x'' CHR ''0'' p"
    let ?p1 = "replace_first CHR ''x'' CHR ''1'' p"
    obtain k where k: "wildcards p = Suc k" "wildcards ?p0 = k" "wildcards ?p1 = k"
      using wildcards_replace_first [OF True, of "CHR ''0''"]
        wildcards_replace_first [OF True, of "CHR ''1''"] by auto
    have sub: "set ?p0 \<subseteq> {CHR ''0'', CHR ''1'', CHR ''x''}"
        "set ?p1 \<subseteq> {CHR ''0'', CHR ''1'', CHR ''x''}"
      using set_replace_first [of "CHR ''x''" "CHR ''0''" p]
        set_replace_first [of "CHR ''x''" "CHR ''1''" p] "1.prems"(1) by auto
    have ne: "?p0 \<noteq> []" "?p1 \<noteq> []"
      using "1.prems"(2) length_replace_first [of "CHR ''x''" _ p] by (metis length_0_conv)+
    have z: "fromRowToNumbers ?p0 =
        Inr (map (\<lambda>bs. bin_value (spec_fill p (False # bs))) (spec_assignments k))"
      using "1.IH"(1) [OF True sub(1) ne(1)] k
      by (simp add: spec_fill_replace [OF True] bit_char_def)
    have o: "fromRowToNumbers ?p1 =
        Inr (map (\<lambda>bs. bin_value (spec_fill p (True # bs))) (spec_assignments k))"
      using "1.IH"(2) [OF True z sub(2) ne(2)] k
      by (simp add: spec_fill_replace [OF True] bit_char_def)
    show ?thesis
      by (subst fromRowToNumbers.simps) (simp add: True z o k comp_def)
  next
    case False
    then have w: "wildcards p = 0" by (auto simp: wildcards_def filter_empty_conv)
    have bits: "\<forall>c\<in>set p. is_bit c" using "1.prems"(1) False by (auto simp: is_bit_def)
    have nosp: "remove_all CHR '' '' p = p"
      using "1.prems"(1) by (auto simp: remove_all_def filter_id_conv)
    show ?thesis
      by (subst fromRowToNumbers.simps)
        (simp add: False w nosp py_int2_bits [OF "1.prems"(2) bits] spec_fill_no_wildcard)
  qed
qed


text \<open>
  C2.  For every input pattern over the alphabet \<open>{0, 1, x}\<close> whose length is the
  \<open>inputCount\<close> of a first line, with \<open>k\<close> wildcard symbols, the expansion succeeds and
  returns exactly \<open>2 ^ k\<close> integers, pairwise distinct, each in \<open>[0, 2 ^ inputCount)\<close>, each
  agreeing with the pattern on its literal positions (the leftmost symbol is the most
  significant bit), in the order of the assignments that varies the first wildcard slowest
  and puts \<open>0\<close> before \<open>1\<close>.
\<close>

theorem fromRowToNumbers_expansion:
  assumes "set p \<subseteq> {CHR ''0'', CHR ''1'', CHR ''x''}"
    and "length p = inputCount first"
  shows "\<exists>ns. fromRowToNumbers p = Inr ns \<and>
           ns = map (\<lambda>bs. bin_value (spec_fill p bs)) (spec_assignments (wildcards p)) \<and>
           length ns = 2 ^ wildcards p \<and> distinct ns \<and>
           (\<forall>n\<in>set ns. 0 \<le> n \<and> n < 2 ^ inputCount first \<and>
              (\<forall>i<length p. p ! i \<noteq> CHR ''x'' \<longrightarrow>
                 (bit n (length p - 1 - i) \<longleftrightarrow> p ! i = CHR ''1'')))"
proof -
  let ?f = "\<lambda>bs. bin_value (spec_fill p bs)"
  let ?as = "spec_assignments (wildcards p)"
  have ne: "p \<noteq> []" using assms(2) inputCount_positive [of first] by auto
  have eq: "fromRowToNumbers p = Inr (map ?f ?as)"
    by (rule fromRowToNumbers_spec [OF assms(1) ne])
  have len: "length (map ?f ?as) = 2 ^ wildcards p"
    by (simp add: length_spec_assignments)
  have inj: "inj_on ?f (set ?as)"
  proof (rule inj_onI)
    fix bs bs' assume a: "bs \<in> set ?as" "bs' \<in> set ?as" "?f bs = ?f bs'"
    have l: "length bs = wildcards p" "length bs' = wildcards p"
      using a(1,2) by (auto dest: spec_assignments_length)
    have b: "\<forall>c\<in>set (spec_fill p bs). is_bit c" "\<forall>c\<in>set (spec_fill p bs'). is_bit c"
      by (rule spec_fill_bits [OF assms(1)], simp add: l)+
    have "spec_fill p bs = spec_fill p bs'"
      using bin_value_inj [OF _ b a(3)] by (simp add: length_spec_fill)
    then show "bs = bs'" by (rule spec_fill_inj [OF l])
  qed
  have dist: "distinct (map ?f ?as)"
    by (simp add: distinct_map distinct_spec_assignments inj)
  have each: "0 \<le> n \<and> n < 2 ^ inputCount first \<and>
       (\<forall>i<length p. p ! i \<noteq> CHR ''x'' \<longrightarrow>
          (bit n (length p - 1 - i) \<longleftrightarrow> p ! i = CHR ''1''))"
    if nin: "n \<in> set (map ?f ?as)" for n
  proof -
    obtain bs where bs: "n = bin_value (spec_fill p bs)" using nin by auto
    have b: "0 \<le> n \<and> n < 2 ^ inputCount first"
      using bin_value_bounds [of "spec_fill p bs"] bs assms(2) by (simp add: length_spec_fill)
    have "bit n (length p - 1 - i) \<longleftrightarrow> p ! i = CHR ''1''"
      if i: "i < length p" "p ! i \<noteq> CHR ''x''" for i
      using i bs by (auto simp: bin_value_bit length_spec_fill spec_fill_literal)
    with b show ?thesis by blast
  qed
  show ?thesis
  proof (intro exI conjI)
    show "fromRowToNumbers p = Inr (map ?f ?as)" by (rule eq)
    show "map ?f ?as = map ?f ?as" ..
    show "length (map ?f ?as) = 2 ^ wildcards p" by (rule len)
    show "distinct (map ?f ?as)" by (rule dist)
    show "\<forall>n\<in>set (map ?f ?as). 0 \<le> n \<and> n < 2 ^ inputCount first \<and>
       (\<forall>i<length p. p ! i \<noteq> CHR ''x'' \<longrightarrow>
          (bit n (length p - 1 - i) \<longleftrightarrow> p ! i = CHR ''1''))"
      by (rule ballI) (rule each)
  qed
qed



theorem fromRowToNumbers_expansion_witness:
  "set ''1x0'' \<subseteq> {CHR ''0'', CHR ''1'', CHR ''x''} \<and> length ''1x0'' = inputCount ''0 0 0 | 1'' \<and>
   fromRowToNumbers ''1x0'' = Inr [4, 6]"
proof -
  have h1: "set ''1x0'' \<subseteq> {CHR ''0'', CHR ''1'', CHR ''x''}" by simp
  have h2: "length ''1x0'' = inputCount ''0 0 0 | 1''" by code_simp
  have w: "wildcards ''1x0'' = Suc 0" by (simp add: wildcards_def)
  obtain ns where ns: "fromRowToNumbers ''1x0'' = Inr ns"
      "ns = map (\<lambda>bs. bin_value (spec_fill ''1x0'' bs)) (spec_assignments (wildcards ''1x0''))"
    using fromRowToNumbers_expansion [OF h1 h2] by blast
  have "ns = [4, 6]"
    unfolding ns(2) w by (simp add: bit_char_def bin_value_def)
  with ns(1) h1 h2 show ?thesis by blast
qed

section \<open>Classification of a row\<close>

lemma classify_Inr:
  "classify inputs index outputs (m, d) = Inr (m', d') \<Longrightarrow>
     length m' = length m \<and> length d' = length d \<and>
     (\<forall>i<length outputs. index + i < length m \<longrightarrow>
        m' ! (index + i) = m ! (index + i) @ (if outputs ! i = ''1'' then inputs else [])) \<and>
     (\<forall>i<length outputs. index + i < length d \<longrightarrow>
        d' ! (index + i) = d ! (index + i) @ (if outputs ! i = ''x'' then inputs else [])) \<and>
     (\<forall>j<length m. j < index \<or> index + length outputs \<le> j \<longrightarrow> m' ! j = m ! j) \<and>
     (\<forall>j<length d. j < index \<or> index + length outputs \<le> j \<longrightarrow> d' ! j = d ! j)"
proof (induction outputs arbitrary: index m d)
  case Nil
  then show ?case by auto
next
  case (Cons out outputs)
  define m1 where "m1 = (if out = ''1'' then m[index := m ! index @ inputs] else m)"
  define d1 where "d1 = (if out \<noteq> ''1'' \<and> out = ''x'' then d[index := d ! index @ inputs] else d)"
  have rec: "classify inputs (Suc index) outputs (m1, d1) = Inr (m', d')"
    using Cons.prems by (auto simp: m1_def d1_def split: if_splits)
  have lt: "out = ''1'' \<longrightarrow> index < length m" "out \<noteq> ''1'' \<and> out = ''x'' \<longrightarrow> index < length d"
    using Cons.prems by (auto split: if_splits)
  note IH = Cons.IH [OF rec]
  have len: "length m1 = length m" "length d1 = length d"
    by (simp_all add: m1_def d1_def)
  have m1: "m1 ! j = m ! j @ (if j = index \<and> out = ''1'' then inputs else [])" if "j < length m" for j
    using that by (simp add: m1_def nth_list_update)
  have d1: "d1 ! j = d ! j @ (if j = index \<and> out = ''x'' then inputs else [])" if "j < length d" for j
    using that by (auto simp: d1_def nth_list_update)
  have A: "m' ! (index + i) = m ! (index + i) @ (if (out # outputs) ! i = ''1'' then inputs else [])"
    if i: "i < length (out # outputs)" "index + i < length m" for i
  proof (cases i)
    case 0
    then show ?thesis using IH len m1 [of index] i by simp
  next
    case (Suc i')
    then show ?thesis
      using IH len m1 [of "index + i"] i by simp
  qed
  have B: "d' ! (index + i) = d ! (index + i) @ (if (out # outputs) ! i = ''x'' then inputs else [])"
    if i: "i < length (out # outputs)" "index + i < length d" for i
  proof (cases i)
    case 0
    then show ?thesis using IH len d1 [of index] i by simp
  next
    case (Suc i')
    then show ?thesis
      using IH len d1 [of "index + i"] i by simp
  qed
  have C: "m' ! j = m ! j"
    if j: "j < length m" "j < index \<or> index + length (out # outputs) \<le> j" for j
    using IH len m1 [of j] j by auto
  have D: "d' ! j = d ! j"
    if j: "j < length d" "j < index \<or> index + length (out # outputs) \<le> j" for j
    using IH len d1 [of j] j by auto
  show ?case using IH len A B C D by simp
qed

lemma classify_succeeds:
  "(\<forall>i<length outputs. (outputs ! i = ''1'' \<longrightarrow> index + i < length m) \<and>
       (outputs ! i = ''x'' \<longrightarrow> index + i < length d)) \<Longrightarrow>
     \<exists>st. classify inputs index outputs (m, d) = Inr st"
proof (induction outputs arbitrary: index m d)
  case Nil
  show ?case by simp
next
  case (Cons out outputs)
  have hd: "(out = ''1'' \<longrightarrow> index < length m) \<and> (out = ''x'' \<longrightarrow> index < length d)"
    using Cons.prems [rule_format, of 0] by simp
  have tl: "\<forall>i<length outputs. (outputs ! i = ''1'' \<longrightarrow> Suc index + i < length m) \<and>
       (outputs ! i = ''x'' \<longrightarrow> Suc index + i < length d)"
    using Cons.prems by (metis Suc_less_eq add_Suc_shift length_Cons nth_Cons_Suc)
  show ?case
    using hd Cons.IH [of "Suc index" "m[index := m ! index @ inputs]" d]
      Cons.IH [of "Suc index" m "d[index := d ! index @ inputs]"]
      Cons.IH [of "Suc index" m d] tl
    by simp
qed

lemma classify_fails:
  "\<exists>i<length outputs. (outputs ! i = ''1'' \<and> length m \<le> index + i) \<or>
       (outputs ! i = ''x'' \<and> length d \<le> index + i) \<Longrightarrow>
     classify inputs index outputs (m, d) = Inl IndexError"
proof (induction outputs arbitrary: index m d)
  case Nil
  then show ?case by simp
next
  case (Cons out outputs)
  then obtain i where i: "i < length (out # outputs)"
      "((out # outputs) ! i = ''1'' \<and> length m \<le> index + i) \<or>
       ((out # outputs) ! i = ''x'' \<and> length d \<le> index + i)"
    by blast
  show ?case
  proof (cases i)
    case 0
    then show ?thesis using i by auto
  next
    case (Suc i')
    then have ex: "\<exists>i<length outputs. (outputs ! i = ''1'' \<and> length m \<le> Suc index + i) \<or>
       (outputs ! i = ''x'' \<and> length d \<le> Suc index + i)"
      using i by auto
    show ?thesis
      using Cons.IH [of "m[index := m ! index @ inputs]" "Suc index" d]
        Cons.IH [of m "Suc index" "d[index := d ! index @ inputs]"]
        Cons.IH [of m "Suc index" d] ex
      by simp
  qed
qed

lemma classify_deny:
  "j < length outputs \<Longrightarrow> outputs ! j \<noteq> ''1'' \<Longrightarrow> outputs ! j \<noteq> ''x'' \<Longrightarrow>
     classify inputs index outputs st = classify inputs index (outputs[j := ''0'']) st"
proof (induction outputs arbitrary: index j st)
  case Nil
  then show ?case by simp
next
  case (Cons out outputs)
  obtain m d where st: "st = (m, d)" by (cases st)
  show ?case
  proof (cases j)
    case 0
    then show ?thesis using Cons.prems by (simp add: st)
  next
    case (Suc j')
    then have "classify inputs (Suc index) outputs st' =
        classify inputs (Suc index) (outputs[j' := ''0'']) st'" for st'
      using Cons.prems Cons.IH [of j' "Suc index" st'] by simp
    then show ?thesis using Suc by (simp add: st)
  qed
qed

lemma classify_all_deny:
  "\<forall>t\<in>set outputs. t \<noteq> ''1'' \<and> t \<noteq> ''x'' \<Longrightarrow> classify inputs index outputs st = Inr st"
proof (induction outputs arbitrary: index)
  case Nil
  show ?case by (cases st) simp
next
  case (Cons out outputs)
  then show ?case by (cases st) simp
qed


lemma replace_first_remove_all:
  "old \<noteq> c \<Longrightarrow> new \<noteq> c \<Longrightarrow>
     remove_all c (replace_first old new s) = replace_first old new (remove_all c s)"
  by (induction s) (auto simp: remove_all_def)

lemma remove_all_idem: "remove_all c (remove_all c s) = remove_all c s"
  by (simp add: remove_all_def)

lemma fromRowToNumbers_spaces:
  "fromRowToNumbers p = fromRowToNumbers (remove_all CHR '' '' p)"
proof (induction p rule: fromRowToNumbers.induct)
  case (1 p)
  let ?q = "remove_all CHR '' '' p"
  show ?case
  proof (cases "CHR ''x'' \<in> set p")
    case True
    then have q: "CHR ''x'' \<in> set ?q" by (simp add: remove_all_def)
    have z: "fromRowToNumbers (replace_first CHR ''x'' CHR ''0'' p) =
        fromRowToNumbers (replace_first CHR ''x'' CHR ''0'' ?q)"
      using "1.IH"(1) [OF True] by (simp add: replace_first_remove_all)
    show ?thesis
    proof (cases "fromRowToNumbers (replace_first CHR ''x'' CHR ''0'' p)")
      case (Inl e)
      have "fromRowToNumbers p = Inl e"
        by (subst fromRowToNumbers.simps) (simp add: True Inl)
      moreover have z': "fromRowToNumbers (replace_first CHR ''x'' CHR ''0'' ?q) = Inl e"
        using z Inl by simp
      have "fromRowToNumbers ?q = Inl e"
        by (subst fromRowToNumbers.simps) (simp add: q z')
      ultimately show ?thesis by simp
    next
      case (Inr zeros)
      have o: "fromRowToNumbers (replace_first CHR ''x'' CHR ''1'' p) =
          fromRowToNumbers (replace_first CHR ''x'' CHR ''1'' ?q)"
        using "1.IH"(2) [OF True Inr] by (simp add: replace_first_remove_all)
      have "fromRowToNumbers p =
          (case fromRowToNumbers (replace_first CHR ''x'' CHR ''1'' p) of
             Inl e \<Rightarrow> Inl e | Inr ones \<Rightarrow> Inr (zeros @ ones))"
        by (subst fromRowToNumbers.simps) (simp add: True Inr)
      moreover have z': "fromRowToNumbers (replace_first CHR ''x'' CHR ''0'' ?q) = Inr zeros"
        using z Inr by simp
      have "fromRowToNumbers ?q =
          (case fromRowToNumbers (replace_first CHR ''x'' CHR ''1'' p) of
             Inl e \<Rightarrow> Inl e | Inr ones \<Rightarrow> Inr (zeros @ ones))"
        by (subst fromRowToNumbers.simps) (simp add: q z' o [symmetric])
      ultimately show ?thesis by simp
    qed
  next
    case False
    then have q: "CHR ''x'' \<notin> set ?q" by (simp add: remove_all_def)
    show ?thesis
      by (subst fromRowToNumbers.simps, subst (2) fromRowToNumbers.simps)
        (simp add: False q remove_all_idem)
  qed
qed

lemma classify_Inr_length:
  "classify inputs index outputs (m, d) = Inr (m', d') \<Longrightarrow>
     length m' = length m \<and> length d' = length d"
  by (drule classify_Inr) simp

lemma classify_Inr_minterms:
  assumes "classify inputs 0 outputs (m, d) = Inr (m', d')"
    and "i < length outputs" and "i < length m"
  shows "m' ! i = m ! i @ (if outputs ! i = ''1'' then inputs else [])"
proof -
  have "\<forall>i<length outputs. 0 + i < length m \<longrightarrow>
        m' ! (0 + i) = m ! (0 + i) @ (if outputs ! i = ''1'' then inputs else [])"
    using classify_Inr [OF assms(1)] by (elim conjE)
  then show ?thesis using assms(2,3) by simp
qed

lemma classify_Inr_dnc:
  assumes "classify inputs 0 outputs (m, d) = Inr (m', d')"
    and "i < length outputs" and "i < length d"
  shows "d' ! i = d ! i @ (if outputs ! i = ''x'' then inputs else [])"
proof -
  have "\<forall>i<length outputs. 0 + i < length d \<longrightarrow>
        d' ! (0 + i) = d ! (0 + i) @ (if outputs ! i = ''x'' then inputs else [])"
    using classify_Inr [OF assms(1)] by (elim conjE)
  then show ?thesis using assms(2,3) by simp
qed

lemma classify_Inr_rest:
  assumes "classify inputs 0 outputs (m, d) = Inr (m', d')"
    and "length outputs \<le> j"
  shows "(j < length m \<longrightarrow> m' ! j = m ! j) \<and> (j < length d \<longrightarrow> d' ! j = d ! j)"
proof -
  have "\<forall>j<length m. j < 0 \<or> 0 + length outputs \<le> j \<longrightarrow> m' ! j = m ! j"
    using classify_Inr [OF assms(1)] by (elim conjE)
  moreover have "\<forall>j<length d. j < 0 \<or> 0 + length outputs \<le> j \<longrightarrow> d' ! j = d ! j"
    using classify_Inr [OF assms(1)] by (elim conjE)
  ultimately show ?thesis using assms(2) by simp
qed

lemma processLine_ok:
  assumes "fromRowToNumbers (strip (hd (py_split CHR ''|'' line))) = Inr inputs"
    and "nth_item (py_split CHR ''|'' line) 1 = Inr seg"
  shows "processLine line st = classify inputs 0 (py_split CHR '' '' (strip seg)) st"
  using assms by (simp add: processLine_def)

lemma processLine_expansion_fails:
  "fromRowToNumbers (strip (hd (py_split CHR ''|'' line))) = Inl e \<Longrightarrow>
     processLine line st = Inl e"
  by (simp add: processLine_def)

lemma processLine_lengths:
  assumes "processLine line (m, d) = Inr (m', d')"
  shows "length m' = length m \<and> length d' = length d"
proof -
  let ?parts = "py_split CHR ''|'' line"
  obtain inputs where inputs: "fromRowToNumbers (strip (hd ?parts)) = Inr inputs"
    using assms by (cases "fromRowToNumbers (strip (hd ?parts))") (simp_all add: processLine_def)
  obtain seg where seg: "nth_item ?parts 1 = Inr seg"
    using assms inputs by (cases "nth_item ?parts 1") (simp_all add: processLine_def)
  have "classify inputs 0 (py_split CHR '' '' (strip seg)) (m, d) = Inr (m', d')"
    using assms processLine_ok [OF inputs seg] by simp
  then show ?thesis by (rule classify_Inr_length)
qed


lemma filter_dropWhile_not: "filter (\<lambda>c. \<not> P c) (dropWhile P s) = filter (\<lambda>c. \<not> P c) s"
  by (induction s) simp_all

lemma filter_strip: "filter (\<lambda>c. \<not> isspace c) (strip s) = filter (\<lambda>c. \<not> isspace c) s"
proof -
  have "filter (\<lambda>c. \<not> isspace c) (strip s) =
      rev (filter (\<lambda>c. \<not> isspace c) (dropWhile isspace (rev (dropWhile isspace s))))"
    by (simp add: strip_def rev_filter)
  also have "\<dots> = rev (filter (\<lambda>c. \<not> isspace c) (rev (dropWhile isspace s)))"
    by (simp only: filter_dropWhile_not)
  also have "\<dots> = filter (\<lambda>c. \<not> isspace c) (dropWhile isspace s)"
    by (simp add: rev_filter)
  finally show ?thesis by (simp only: filter_dropWhile_not)
qed

lemma isspace_symbols:
  "c \<in> {CHR ''0'', CHR ''1'', CHR ''x'', CHR '' ''} \<Longrightarrow> isspace c \<longleftrightarrow> c = CHR '' ''"
  by (auto simp: isspace_def)

lemma filter_isspace_remove_all:
  assumes "set t \<subseteq> {CHR ''0'', CHR ''1'', CHR ''x'', CHR '' ''}"
  shows "filter (\<lambda>c. \<not> isspace c) t = remove_all CHR '' '' t"
  unfolding remove_all_def
proof (rule filter_cong [OF refl])
  fix c assume "c \<in> set t"
  then have "c \<in> {CHR ''0'', CHR ''1'', CHR ''x'', CHR '' ''}" using assms by blast
  then show "(\<not> isspace c) = (c \<noteq> CHR '' '')" using isspace_symbols by blast
qed

lemma spec_whitespace_split_nonempty: "spec_whitespace_split s \<noteq> []"
  by (induction s) simp_all

lemma spec_whitespace_split_snoc:
  "isspace c \<Longrightarrow> spec_whitespace_split (s @ [c]) = spec_whitespace_split s @ [[]]"
proof (induction s)
  case Nil
  then show ?case by simp
next
  case (Cons a s)
  then show ?case
    using spec_whitespace_split_nonempty [of s] by (cases "spec_whitespace_split s") simp_all
qed

lemma spec_symbols_snoc: "isspace c \<Longrightarrow> spec_symbols (s @ [c]) = spec_symbols s"
  by (simp add: spec_symbols_def spec_whitespace_split_snoc)

lemma spec_symbols_Cons: "isspace c \<Longrightarrow> spec_symbols (c # s) = spec_symbols s"
  by (simp add: spec_symbols_def)

lemma spec_symbols_dropWhile: "spec_symbols (dropWhile isspace s) = spec_symbols s"
  by (induction s) (simp_all add: spec_symbols_Cons)

lemma spec_symbols_rev_dropWhile:
  "spec_symbols (rev (dropWhile isspace r)) = spec_symbols (rev r)"
  by (induction r) (simp_all add: spec_symbols_snoc)

lemma spec_symbols_strip: "spec_symbols (strip s) = spec_symbols s"
  by (simp add: strip_def spec_symbols_rev_dropWhile spec_symbols_dropWhile)

lemma spec_whitespace_split_py_split:
  "\<forall>c\<in>set t. isspace c \<longleftrightarrow> c = CHR '' '' \<Longrightarrow>
     spec_whitespace_split t = py_split CHR '' '' t"
  by (induction t) simp_all

lemma py_split_chars:
  "c \<in> set t \<Longrightarrow> c = sep \<or> (\<exists>w\<in>set (py_split sep t). c \<in> set w)"
proof (induction t)
  case Nil
  then show ?case by simp
next
  case (Cons a t)
  obtain w ws where ws: "py_split sep t = w # ws"
    using py_split_nonempty [of sep t] by (cases "py_split sep t") auto
  show ?case
  proof (cases "c = a")
    case True
    then show ?thesis by (auto simp: ws)
  next
    case False
    then have "c \<in> set t" using Cons.prems by simp
    then have "c = sep \<or> (\<exists>w\<in>set (py_split sep t). c \<in> set w)" by (rule Cons.IH)
    then show ?thesis by (auto simp: ws)
  qed
qed

lemma single_spaced_row_well_formed:
  assumes "single_spaced_row n k line"
  shows "spec_well_formed_row n k line"
proof -
  define parts where "parts = py_split CHR ''|'' line"
  define pat where "pat = strip (parts ! 0)"
  define seg where "seg = strip (parts ! 1)"
  have wf: "length parts = 2"
      "set pat \<subseteq> {CHR ''0'', CHR ''1'', CHR ''x'', CHR '' ''}"
      "length (remove_all CHR '' '' pat) = n"
      "set (py_split CHR '' '' seg) \<subseteq> {''0'', ''1'', ''x''}"
      "length (py_split CHR '' '' seg) = k"
    using assms by (simp_all add: single_spaced_row_def Let_def parts_def pat_def seg_def)
  have p: "filter (\<lambda>c. \<not> isspace c) (parts ! 0) = remove_all CHR '' '' pat"
    using filter_strip [of "parts ! 0"] filter_isspace_remove_all [OF wf(2)]
    by (simp add: pat_def)
  have p1: "set (remove_all CHR '' '' pat) \<subseteq> {CHR ''0'', CHR ''1'', CHR ''x''}"
    using wf(2) by (auto simp: remove_all_def)
  have chars: "c \<in> {CHR ''0'', CHR ''1'', CHR ''x'', CHR '' ''}" if c: "c \<in> set seg" for c
  proof -
    have "c = CHR '' '' \<or> (\<exists>w\<in>set (py_split CHR '' '' seg). c \<in> set w)"
      using c by (rule py_split_chars)
    then show ?thesis using wf(4) by auto
  qed
  have "\<forall>c\<in>set seg. isspace c \<longleftrightarrow> c = CHR '' ''"
    using chars isspace_symbols by blast
  then have s1: "spec_whitespace_split seg = py_split CHR '' '' seg"
    by (rule spec_whitespace_split_py_split)
  have "\<forall>w\<in>set (py_split CHR '' '' seg). w \<noteq> []"
    using wf(4) by auto
  then have "filter (\<lambda>w. w \<noteq> []) (py_split CHR '' '' seg) = py_split CHR '' '' seg"
    by (simp add: filter_id_conv)
  then have "spec_symbols seg = py_split CHR '' '' seg"
    by (simp add: spec_symbols_def s1)
  then have s: "spec_symbols (parts ! 1) = py_split CHR '' '' seg"
    using spec_symbols_strip [of "parts ! 1"] by (simp add: seg_def)
  show ?thesis
    unfolding spec_well_formed_row_def Let_def parts_def [symmetric] p s
    using wf(1,3,4,5) p1 by simp
qed

text \<open>
  C3 (as the code has it).  For every single-spaced row, that is a row whose input
  pattern is grouped by spaces only and whose output symbols are separated by exactly one
  space each, and every output column \<open>j\<close>: the row is well-formed in the words of the
  specification and processing it succeeds; if the row's \<open>j\<close>-th output symbol is \<open>1\<close>,
  the row's expansion is appended to \<open>minterms[j]\<close> and \<open>dnc[j]\<close> is unchanged; if it is
  \<open>x\<close>, the expansion is appended to \<open>dnc[j]\<close> and \<open>minterms[j]\<close> is unchanged; if it
  is \<open>0\<close>, both lists of column \<open>j\<close> are unchanged.
\<close>

theorem classification_partition:
  assumes "single_spaced_row (inputCount first) k line"
    and "length m = k" and "length d = k"
  shows "spec_well_formed_row (inputCount first) k line \<and>
         (\<exists>inputs m' d'.
            fromRowToNumbers (strip (hd (py_split CHR ''|'' line))) = Inr inputs \<and>
            processLine line (m, d) = Inr (m', d') \<and> length m' = k \<and> length d' = k \<and>
            (\<forall>j<k. let out = py_split CHR '' '' (strip (py_split CHR ''|'' line ! 1)) ! j in
               (out = ''1'' \<longrightarrow> m' ! j = m ! j @ inputs \<and> d' ! j = d ! j) \<and>
               (out = ''x'' \<longrightarrow> d' ! j = d ! j @ inputs \<and> m' ! j = m ! j) \<and>
               (out = ''0'' \<longrightarrow> m' ! j = m ! j \<and> d' ! j = d ! j)))"
proof -
  define parts where "parts = py_split CHR ''|'' line"
  define pat where "pat = strip (parts ! 0)"
  define outs where "outs = py_split CHR '' '' (strip (parts ! 1))"
  have wf: "length parts = 2"
      "set pat \<subseteq> {CHR ''0'', CHR ''1'', CHR ''x'', CHR '' ''}"
      "length (remove_all CHR '' '' pat) = inputCount first"
      "length outs = k"
    using assms(1) by (simp_all add: single_spaced_row_def Let_def parts_def pat_def outs_def)
  have hd: "hd parts = parts ! 0"
    using wf(1) by (cases parts) auto
  have ne: "remove_all CHR '' '' pat \<noteq> []"
    using wf(3) inputCount_positive [of first] by auto
  have sub: "set (remove_all CHR '' '' pat) \<subseteq> {CHR ''0'', CHR ''1'', CHR ''x''}"
    using wf(2) by (auto simp: remove_all_def)
  obtain inputs where inputs: "fromRowToNumbers pat = Inr inputs"
    using fromRowToNumbers_spec [OF sub ne] fromRowToNumbers_spaces [of pat] by simp
  have inputs': "fromRowToNumbers (strip (hd (py_split CHR ''|'' line))) = Inr inputs"
    using inputs hd by (simp add: pat_def parts_def)
  have seg: "nth_item (py_split CHR ''|'' line) 1 = Inr (parts ! 1)"
    using wf(1) by (simp add: nth_item_def parts_def)
  have pl: "processLine line (m, d) = classify inputs 0 outs (m, d)"
    using processLine_ok [OF inputs' seg] by (simp add: outs_def)
  have "\<forall>i<length outs. (outs ! i = ''1'' \<longrightarrow> 0 + i < length m) \<and>
       (outs ! i = ''x'' \<longrightarrow> 0 + i < length d)"
    by (simp add: wf(4) assms(2,3))
  then have "\<exists>st. classify inputs 0 outs (m, d) = Inr st"
    by (rule classify_succeeds)
  then obtain m' d' where cl: "classify inputs 0 outs (m, d) = Inr (m', d')"
    by auto
  have len: "length m' = k" "length d' = k"
    using classify_Inr_length [OF cl] assms(2,3) by simp_all
  have each: "(outs ! j = ''1'' \<longrightarrow> m' ! j = m ! j @ inputs \<and> d' ! j = d ! j) \<and>
              (outs ! j = ''x'' \<longrightarrow> d' ! j = d ! j @ inputs \<and> m' ! j = m ! j) \<and>
              (outs ! j = ''0'' \<longrightarrow> m' ! j = m ! j \<and> d' ! j = d ! j)" if j: "j < k" for j
    using classify_Inr_minterms [OF cl, of j] classify_Inr_dnc [OF cl, of j] j wf(4) assms(2,3)
    by simp
  have partition: "\<exists>inputs m' d'.
           fromRowToNumbers (strip (hd (py_split CHR ''|'' line))) = Inr inputs \<and>
           processLine line (m, d) = Inr (m', d') \<and> length m' = k \<and> length d' = k \<and>
           (\<forall>j<k. let out = py_split CHR '' '' (strip (py_split CHR ''|'' line ! 1)) ! j in
              (out = ''1'' \<longrightarrow> m' ! j = m ! j @ inputs \<and> d' ! j = d ! j) \<and>
              (out = ''x'' \<longrightarrow> d' ! j = d ! j @ inputs \<and> m' ! j = m ! j) \<and>
              (out = ''0'' \<longrightarrow> m' ! j = m ! j \<and> d' ! j = d ! j))"
  proof (intro exI conjI)
    show "fromRowToNumbers (strip (hd (py_split CHR ''|'' line))) = Inr inputs" by (rule inputs')
    show "processLine line (m, d) = Inr (m', d')" using pl cl by simp
    show "length m' = k" "length d' = k" by (rule len)+
    show "\<forall>j<k. let out = py_split CHR '' '' (strip (py_split CHR ''|'' line ! 1)) ! j in
              (out = ''1'' \<longrightarrow> m' ! j = m ! j @ inputs \<and> d' ! j = d ! j) \<and>
              (out = ''x'' \<longrightarrow> d' ! j = d ! j @ inputs \<and> m' ! j = m ! j) \<and>
              (out = ''0'' \<longrightarrow> m' ! j = m ! j \<and> d' ! j = d ! j)"
      unfolding Let_def using each by (simp add: outs_def parts_def)
  qed
  show ?thesis
    using single_spaced_row_well_formed [OF assms(1)] partition by (rule conjI)
qed

theorem classification_partition_witness:
  "single_spaced_row (inputCount ''0 0 0 | 0 0\<newline>'') 2 ''1 x 0 | 1 0\<newline>'' \<and>
   (\<exists>inputs m' d'.
      fromRowToNumbers (strip (hd (py_split CHR ''|'' ''1 x 0 | 1 0\<newline>''))) = Inr inputs \<and>
      processLine ''1 x 0 | 1 0\<newline>'' ([[1], []], [[], [7]]) = Inr (m', d') \<and>
      m' ! 0 = [1] @ inputs \<and> d' ! 0 = [] \<and> m' ! 1 = [] \<and> d' ! 1 = [7])"
proof -
  have h: "single_spaced_row (inputCount ''0 0 0 | 0 0\<newline>'') 2 ''1 x 0 | 1 0\<newline>''"
    by code_simp
  have t0: "py_split CHR '' '' (strip (py_split CHR ''|'' ''1 x 0 | 1 0\<newline>'' ! 1)) ! 0 = ''1''"
    by code_simp
  have t1: "py_split CHR '' '' (strip (py_split CHR ''|'' ''1 x 0 | 1 0\<newline>'' ! 1)) ! 1 = ''0''"
    by code_simp
  obtain inputs m' d' where a:
      "fromRowToNumbers (strip (hd (py_split CHR ''|'' ''1 x 0 | 1 0\<newline>''))) = Inr inputs"
      "processLine ''1 x 0 | 1 0\<newline>'' ([[1], []], [[], [7]]) = Inr (m', d')"
      "\<forall>j<2. let out = py_split CHR '' '' (strip (py_split CHR ''|'' ''1 x 0 | 1 0\<newline>'' ! 1)) ! j in
              (out = ''1'' \<longrightarrow> m' ! j = [[1], []] ! j @ inputs \<and> d' ! j = [[], [7]] ! j) \<and>
              (out = ''x'' \<longrightarrow> d' ! j = [[], [7]] ! j @ inputs \<and> m' ! j = [[1], []] ! j) \<and>
              (out = ''0'' \<longrightarrow> m' ! j = [[1], []] ! j \<and> d' ! j = [[], [7]] ! j)"
    using classification_partition [OF h, of "[[1], []]" "[[], [7]]", THEN conjunct2] by auto
  have "m' ! 0 = [1] @ inputs \<and> d' ! 0 = []"
    using a(3) [rule_format, of 0] unfolding Let_def t0 by simp
  moreover have "m' ! 1 = [] \<and> d' ! 1 = [7]"
    using a(3) [rule_format, of 1] unfolding Let_def t1 by simp
  ultimately show ?thesis using h a(1,2) by blast
qed

text \<open>
  A row that is well-formed in the words of the specification need not be single-spaced,
  and then the code does not classify it as the specification says.  In a table of two
  output columns, the row \<open>0 1 | 0  1\<close> with two spaces between its output symbols is cut
  into three pieces, the symbol \<open>1\<close> lands at position 2 and the row raises \<open>IndexError\<close>;
  the row \<open>0 1 | 0\<close>, tabulator, \<open>1\<close> is cut into one piece, which is neither \<open>1\<close> nor
  \<open>x\<close>, and its index 1 is missing from \<open>minterms[1]\<close>.
\<close>

theorem classification_counterexample:
  "spec_well_formed_row 2 2 ''0 1 | 0  1\<newline>'' \<and>
   main_compile [''0 0 | 0 1\<newline>'', ''0 1 | 0  1\<newline>''] = Inl IndexError \<and>
   spec_well_formed_row 2 2 (''0 1 | 0'' @ [CHR 0x09] @ ''1\<newline>'') \<and>
   main_compile [''0 0 | 0 1\<newline>'', ''0 1 | 0'' @ [CHR 0x09] @ ''1\<newline>''] =
     Inr (2, [[], [0]], [[], []])"
proof (intro conjI)
  show "spec_well_formed_row 2 2 ''0 1 | 0  1\<newline>''" by code_simp
  show "main_compile [''0 0 | 0 1\<newline>'', ''0 1 | 0  1\<newline>''] = Inl IndexError"
    by code_simp
  show "spec_well_formed_row 2 2 (''0 1 | 0'' @ [CHR 0x09] @ ''1\<newline>'')" by code_simp
  show "main_compile [''0 0 | 0 1\<newline>'', ''0 1 | 0'' @ [CHR 0x09] @ ''1\<newline>''] =
     Inr (2, [[], [0]], [[], []])"
    by code_simp
qed

text \<open>
  C10.  An output token that is neither \<open>1\<close> nor \<open>x\<close> (an invalid symbol such as \<open>2\<close>, a
  token of several characters, the empty token) is treated exactly like \<open>0\<close>: the outcome
  of the row is the one obtained with \<open>0\<close> in its place, the lists of its column are left
  as they were, and a row made of such tokens only raises no error.
\<close>

theorem other_tokens_denied:
  assumes "j < length outputs" and "outputs ! j \<noteq> ''1''" and "outputs ! j \<noteq> ''x''"
  shows "classify inputs 0 outputs (m, d) = classify inputs 0 (outputs[j := ''0'']) (m, d) \<and>
         (\<forall>m' d'. classify inputs 0 outputs (m, d) = Inr (m', d') \<longrightarrow>
            (j < length m \<longrightarrow> m' ! j = m ! j) \<and> (j < length d \<longrightarrow> d' ! j = d ! j)) \<and>
         ((\<forall>t\<in>set outputs. t \<noteq> ''1'' \<and> t \<noteq> ''x'') \<longrightarrow>
            classify inputs 0 outputs (m, d) = Inr (m, d))"
proof (intro conjI allI impI)
  show "classify inputs 0 outputs (m, d) = classify inputs 0 (outputs[j := ''0'']) (m, d)"
    using assms by (rule classify_deny)
next
  fix m' d'
  assume cl: "classify inputs 0 outputs (m, d) = Inr (m', d')" and "j < length m"
  then show "m' ! j = m ! j"
    using classify_Inr_minterms [OF cl assms(1)] assms(2) by simp
next
  fix m' d'
  assume cl: "classify inputs 0 outputs (m, d) = Inr (m', d')" and "j < length d"
  then show "d' ! j = d ! j"
    using classify_Inr_dnc [OF cl assms(1)] assms(3) by simp
next
  assume "\<forall>t\<in>set outputs. t \<noteq> ''1'' \<and> t \<noteq> ''x''"
  then show "classify inputs 0 outputs (m, d) = Inr (m, d)"
    by (rule classify_all_deny)
qed

theorem other_tokens_denied_witness:
  "(1::nat) < length [''1'', ''2'', ''x'', ''10''] \<and> [''1'', ''2'', ''x'', ''10''] ! 1 \<noteq> ''1'' \<and>
   [''1'', ''2'', ''x'', ''10''] ! 1 \<noteq> ''x'' \<and>
   classify [5] 0 [''1'', ''2'', ''x'', ''10''] ([[], [], []], [[], [], []]) =
     Inr ([[5], [], []], [[], [], [5]])"
proof -
  have h: "(1::nat) < length [''1'', ''2'', ''x'', ''10'']"
    "[''1'', ''2'', ''x'', ''10''] ! 1 \<noteq> ''1''" "[''1'', ''2'', ''x'', ''10''] ! 1 \<noteq> ''x''"
    by simp_all
  have "classify [5] 0 [''1'', ''2'', ''x'', ''10''] ([[], [], []], [[], [], []]) =
      classify [5] 0 ([''1'', ''2'', ''x'', ''10''][1 := ''0'']) ([[], [], []], [[], [], []])"
    using other_tokens_denied [OF h, of "[5]" "[[], [], []]" "[[], [], []]"] by blast
  also have "\<dots> = Inr ([[5], [], []], [[], [], [5]])"
    by simp
  finally show ?thesis using h by blast
qed

section \<open>Failing rows and failing tables\<close>

lemma processLines_fail_at:
  "l \<in> set lines \<Longrightarrow>
   (\<forall>m' d'. length m' = length m \<longrightarrow> length d' = length d \<longrightarrow>
      (\<exists>e. processLine l (m', d') = Inl e)) \<Longrightarrow>
   \<exists>e. processLines lines (m, d) = Inl e"
proof (induction lines arbitrary: m d)
  case Nil
  then show ?case by simp
next
  case (Cons a lines)
  show ?case
  proof (cases "processLine a (m, d)")
    case (Inl e)
    then show ?thesis by simp
  next
    case (Inr st)
    obtain m1 d1 where st: "st = (m1, d1)" by (cases st)
    have len: "length m1 = length m" "length d1 = length d"
      using processLine_lengths [of a m d m1 d1] Inr st by simp_all
    have "l \<noteq> a"
    proof
      assume "l = a"
      then obtain e where "processLine a (m, d) = Inl e"
        using Cons.prems(2) [rule_format, of m d] by auto
      then show False using Inr by simp
    qed
    then have "l \<in> set lines" using Cons.prems(1) by simp
    then have "\<exists>e. processLines lines (m1, d1) = Inl e"
      using Cons.IH [of m1 d1] Cons.prems(2) len by simp
    then show ?thesis using Inr st by simp
  qed
qed

lemma main_compile_fail_at:
  assumes "l \<in> set lines"
    and "\<And>k m d. outFuncCount (lines ! 0) = Inr k \<Longrightarrow> length m = k \<Longrightarrow> length d = k \<Longrightarrow>
           \<exists>e. processLine l (m, d) = Inl e"
  shows "\<exists>e. main_compile lines = Inl e"
proof -
  have first: "nth_item lines 0 = Inr (lines ! 0)"
    using assms(1) by (cases lines) (simp_all add: nth_item_def)
  show ?thesis
  proof (cases "outFuncCount (lines ! 0)")
    case (Inl e)
    then show ?thesis by (simp add: main_compile_def first)
  next
    case (Inr k)
    have "\<exists>e. processLines lines (replicate k [], replicate k []) = Inl e"
      by (rule processLines_fail_at [OF assms(1)]) (simp add: assms(2) [OF Inr])
    then show ?thesis by (auto simp: main_compile_def first Inr)
  qed
qed

lemma strip_empty: "strip s = [] \<Longrightarrow> \<forall>c\<in>set s. isspace c"
proof -
  assume a: "strip s = []"
  have "dropWhile isspace s = []"
  proof (rule ccontr)
    assume ne: "dropWhile isspace s \<noteq> []"
    have "\<not> isspace (hd (dropWhile isspace s))" using ne by (rule hd_dropWhile)
    moreover have "\<forall>x\<in>set (dropWhile isspace s). isspace x"
      using a by (simp add: strip_def dropWhile_eq_Nil_conv)
    ultimately show False using ne hd_in_set by blast
  qed
  then show ?thesis by (simp add: dropWhile_eq_Nil_conv)
qed

lemma py_split_no_sep: "sep \<notin> set s \<Longrightarrow> py_split sep s = [s]"
  by (induction s) auto

lemma py_int2_empty: "py_int2 [] = Inl (ValueError [])"
  by (simp add: py_int2_def strip_sign_def strip_prefix2_def)

lemma fromRowToNumbers_empty: "fromRowToNumbers [] = Inl (ValueError [])"
  by (subst fromRowToNumbers.simps) (simp add: remove_all_def py_int2_empty)

lemma blank_line_fails:
  assumes "strip line = []"
  shows "processLine line st = Inl (ValueError [])"
proof -
  have "\<forall>c\<in>set line. isspace c" using assms by (rule strip_empty)
  moreover have "\<not> isspace CHR ''|''" by (simp add: isspace_def)
  ultimately have "CHR ''|'' \<notin> set line" by blast
  then have "py_split CHR ''|'' line = [line]" by (rule py_split_no_sep)
  then show ?thesis
    using assms by (simp add: processLine_expansion_fails fromRowToNumbers_empty)
qed

lemma set_dropWhile_split: "x \<in> set s \<Longrightarrow> P x \<or> x \<in> set (dropWhile P s)"
  by (induction s) auto

lemma strip_sign_chars:
  "strip_sign s = (neg, t) \<Longrightarrow> x \<in> set s \<Longrightarrow> x = CHR ''+'' \<or> x = CHR ''-'' \<or> x \<in> set t"
  by (cases s) (auto simp: strip_sign_def split: if_splits)

lemma strip_prefix2_chars:
  "x \<in> set t \<Longrightarrow>
     x = CHR ''0'' \<or> x = CHR ''b'' \<or> x = CHR ''B'' \<or> x = CHR ''_'' \<or> x \<in> set (strip_prefix2 t)"
proof (cases t)
  case Nil
  assume "x \<in> set t"
  then show ?thesis using Nil by simp
next
  case (Cons a r)
  assume x: "x \<in> set t"
  show ?thesis
  proof (cases r)
    case Nil
    then show ?thesis using x Cons by (simp add: strip_prefix2_def)
  next
    case (Cons b r')
    note r = Cons
    show ?thesis
    proof (cases r')
      case Nil
      then show ?thesis using x \<open>t = a # r\<close> r by (auto simp: strip_prefix2_def)
    next
      case (Cons u r'')
      then show ?thesis using x \<open>t = a # r\<close> r by (auto simp: strip_prefix2_def)
    qed
  qed
qed

lemma py_int2_error: "py_int2 s = Inl e \<Longrightarrow> e = ValueError s"
  by (cases "strip_sign (dropWhile int_space s)")
    (auto simp: py_int2_def Let_def split: if_splits)

lemma py_int2_accepts_chars:
  assumes "py_int2 s = Inr n" and "x \<in> set s"
  shows "int2_char x"
proof -
  obtain neg t where st: "strip_sign (dropWhile int_space s) = (neg, t)"
    by (cases "strip_sign (dropWhile int_space s)")
  let ?u = "strip_prefix2 t"
  have rest: "dropWhile int_space (dropWhile body_char ?u) = []"
    using assms(1) by (simp add: py_int2_def Let_def st split: if_splits)
  consider "int_space x" | "x = CHR ''+'' \<or> x = CHR ''-''"
    | "x = CHR ''0'' \<or> x = CHR ''b'' \<or> x = CHR ''B'' \<or> x = CHR ''_''"
    | "body_char x" | "x \<in> set (dropWhile body_char ?u)"
    using set_dropWhile_split [OF assms(2), of int_space] strip_sign_chars [OF st, of x]
      strip_prefix2_chars [of x t] set_dropWhile_split [of x ?u body_char]
    by blast
  then show ?thesis
  proof cases
    case 5
    then have "int_space x" using rest by (simp add: dropWhile_eq_Nil_conv)
    then show ?thesis by (simp add: int2_char_def)
  qed (auto simp: int2_char_def body_char_def is_bit_def)
qed

lemma py_int2_rejects:
  assumes "x \<in> set s" and "\<not> int2_char x"
  shows "py_int2 s = Inl (ValueError s)"
proof (cases "py_int2 s")
  case (Inl e)
  then show ?thesis using py_int2_error [OF Inl] by simp
next
  case (Inr n)
  then show ?thesis using py_int2_accepts_chars [OF Inr assms(1)] assms(2) by simp
qed

lemma in_set_replace_first:
  "c \<in> set s \<Longrightarrow> c \<noteq> old \<Longrightarrow> c \<in> set (replace_first old new s)"
  by (induction s) auto

lemma map_replace_first_wildcard:
  "map (\<lambda>a. if a = CHR ''x'' then CHR ''0'' else a) (replace_first CHR ''x'' CHR ''0'' s) =
   map (\<lambda>a. if a = CHR ''x'' then CHR ''0'' else a) s"
  by (induction s) auto

lemma fromRowToNumbers_rejects:
  "c \<in> set p \<Longrightarrow> \<not> int2_char c \<Longrightarrow> c \<noteq> CHR ''x'' \<Longrightarrow>
     fromRowToNumbers p =
       Inl (ValueError (remove_all CHR '' '' (map (\<lambda>a. if a = CHR ''x'' then CHR ''0'' else a) p)))"
proof (induction p rule: fromRowToNumbers.induct)
  case (1 p)
  show ?case
  proof (cases "CHR ''x'' \<in> set p")
    case True
    have "c \<in> set (replace_first CHR ''x'' CHR ''0'' p)"
      using "1.prems"(1,3) by (rule in_set_replace_first)
    then have "fromRowToNumbers (replace_first CHR ''x'' CHR ''0'' p) =
        Inl (ValueError (remove_all CHR '' '' (map (\<lambda>a. if a = CHR ''x'' then CHR ''0'' else a) p)))"
      using "1.IH"(1) [OF True _ "1.prems"(2,3)] by (simp add: map_replace_first_wildcard)
    then show ?thesis
      by (subst fromRowToNumbers.simps) (simp add: True)
  next
    case False
    have id: "map (\<lambda>a. if a = CHR ''x'' then CHR ''0'' else a) p = p"
      using False by (induction p) auto
    have "c \<noteq> CHR '' ''" using "1.prems"(2) by (auto simp: int2_char_def int_space_def)
    then have "c \<in> set (remove_all CHR '' '' p)"
      using "1.prems"(1) by (simp add: remove_all_def)
    then have "py_int2 (remove_all CHR '' '' p) = Inl (ValueError (remove_all CHR '' '' p))"
      using "1.prems"(2) by (rule py_int2_rejects)
    then show ?thesis
      by (subst fromRowToNumbers.simps) (simp add: False id)
  qed
qed

section \<open>The first line of the table\<close>

text \<open>
  C1 (as the code has it).  The first line of the table is not set apart as a header: the
  counts are taken from it and it is then expanded and classified like every other line.
  For the table consisting of the single line \<open>0 0 | 1\<close>, compilation succeeds with
  \<open>inputCount = 2\<close>, \<open>minterms[0] = [0]\<close> and \<open>dnc[0] = []\<close>.
\<close>

theorem first_line_is_a_row:
  "main_compile [''0 0 | 1\<newline>''] = Inr (2, [[0]], [[]])"
  by code_simp

text \<open>
  With the line \<open>a b | Q0\<close> in front of the row \<open>0 0 | 1\<close>, the compilation does not
  succeed: the loop over the lines expands \<open>a b\<close> as an input pattern, and the base-2
  conversion of \<open>ab\<close> raises \<open>ValueError\<close>.
\<close>

theorem header_line_counterexample:
  "main_compile [''a b | Q0\<newline>'', ''0 0 | 1\<newline>''] = Inl (ValueError ''ab'') \<and>
   main_compile [''a b | Q0\<newline>'', ''0 0 | 1\<newline>''] \<noteq> Inr (2, [[0]], [[]])"
proof -
  have "main_compile [''a b | Q0\<newline>'', ''0 0 | 1\<newline>''] = Inl (ValueError ''ab'')"
    by code_simp
  then show ?thesis by simp
qed

section \<open>Characters outside the alphabet\<close>

text \<open>
  C4 (as the code has it).  When the input pattern of some line of the table contains a
  character with a code point below 256 that the base-2 conversion cannot accept (any
  such character other than \<open>0\<close>, \<open>1\<close>, \<open>x\<close>, whitespace, \<open>+\<close>, \<open>-\<close>, \<open>_\<close>, \<open>b\<close> and
  \<open>B\<close>; for example \<open>2\<close>), the compilation fails and produces no sets.  The line itself
  raises \<open>ValueError\<close>, whose message quotes the rejected literal: the pattern with its
  wildcards set to \<open>0\<close> and its spaces removed.  Characters with a code point from 256 on
  are not covered: the conversion accepts some of them (the decimal digits of other
  scripts whose value is 0 or 1).
\<close>

theorem invalid_input_symbol_fails:
  assumes "line \<in> set lines"
    and "c \<in> set (strip (hd (py_split CHR ''|'' line)))"
    and "\<not> int2_char c" and "c \<noteq> CHR ''x''"
  shows "(\<exists>e. main_compile lines = Inl e) \<and>
         (\<forall>st. processLine line st =
            Inl (ValueError (remove_all CHR '' ''
              (map (\<lambda>a. if a = CHR ''x'' then CHR ''0'' else a)
                 (strip (hd (py_split CHR ''|'' line)))))))"
proof -
  have row: "processLine line st =
            Inl (ValueError (remove_all CHR '' ''
              (map (\<lambda>a. if a = CHR ''x'' then CHR ''0'' else a)
                 (strip (hd (py_split CHR ''|'' line))))))" for st
    by (rule processLine_expansion_fails) (rule fromRowToNumbers_rejects [OF assms(2,3,4)])
  have "\<exists>e. main_compile lines = Inl e"
    by (rule main_compile_fail_at [OF assms(1)]) (simp add: row)
  then show ?thesis using row by blast
qed

theorem invalid_input_symbol_fails_witness:
  "''0 2 | 1\<newline>'' \<in> set [''0 0 | 1\<newline>'', ''0 2 | 1\<newline>''] \<and>
   CHR ''2'' \<in> set (strip (hd (py_split CHR ''|'' ''0 2 | 1\<newline>''))) \<and>
   \<not> int2_char CHR ''2'' \<and>
   (\<exists>e. main_compile [''0 0 | 1\<newline>'', ''0 2 | 1\<newline>''] = Inl e) \<and>
   processLine ''0 2 | 1\<newline>'' ([[]], [[]]) = Inl (ValueError ''02'')"
proof -
  have h1: "''0 2 | 1\<newline>'' \<in> set [''0 0 | 1\<newline>'', ''0 2 | 1\<newline>'']" by simp
  have h2: "CHR ''2'' \<in> set (strip (hd (py_split CHR ''|'' ''0 2 | 1\<newline>'')))" by code_simp
  have h3: "\<not> int2_char CHR ''2''" by (simp add: int2_char_def int_space_def)
  have h4: "CHR ''2'' \<noteq> CHR ''x''" by simp
  have lit: "remove_all CHR '' '' (map (\<lambda>a. if a = CHR ''x'' then CHR ''0'' else a)
      (strip (hd (py_split CHR ''|'' ''0 2 | 1\<newline>'')))) = ''02''"
    by code_simp
  note t = invalid_input_symbol_fails [OF h1 h2 h3 h4]
  have a: "\<exists>e. main_compile [''0 0 | 1\<newline>'', ''0 2 | 1\<newline>''] = Inl e"
    using t by (rule conjunct1)
  have "processLine ''0 2 | 1\<newline>'' ([[]], [[]]) =
      Inl (ValueError (remove_all CHR '' '' (map (\<lambda>a. if a = CHR ''x'' then CHR ''0'' else a)
        (strip (hd (py_split CHR ''|'' ''0 2 | 1\<newline>''))))))"
    using t by blast
  then have b: "processLine ''0 2 | 1\<newline>'' ([[]], [[]]) = Inl (ValueError ''02'')"
    unfolding lit .
  show ?thesis using h1 h2 h3 a b by blast
qed

text \<open>
  There is no check of the symbols themselves.  A table whose only output symbol is \<open>2\<close>
  compiles, and so does a table whose input pattern is \<open>0_0\<close>, which the base-2
  conversion reads as \<open>00\<close>.
\<close>

theorem invalid_symbol_counterexample:
  "main_compile [''0 0 | 2\<newline>''] = Inr (2, [[]], [[]]) \<and>
   main_compile [''0_0 | 1\<newline>''] = Inr (1, [[0]], [[]])"
proof
  show "main_compile [''0 0 | 2\<newline>''] = Inr (2, [[]], [[]])" by code_simp
  show "main_compile [''0_0 | 1\<newline>''] = Inr (1, [[0]], [[]])" by code_simp
qed

section \<open>Rows with another number of output symbols\<close>

text \<open>
  C5 (as the code has it).  A row is not rejected for having a number of output symbols
  other than \<open>outputCount\<close>.  For a row with a separator and an input pattern that expands:
  it raises an exception (\<open>IndexError\<close>) exactly when one of its output symbols at a
  position from \<open>outputCount\<close> on is \<open>1\<close> or \<open>x\<close>, and then the compilation of a table
  holding the row fails and produces no sets; otherwise, in particular whenever the row has
  fewer symbols than \<open>outputCount\<close>, it is processed without error, the symbols it has are
  classified into the leading columns and the other columns are left unchanged.
\<close>

theorem output_count_mismatch:
  assumes "fromRowToNumbers (strip (hd (py_split CHR ''|'' line))) = Inr inputs"
    and "nth_item (py_split CHR ''|'' line) 1 = Inr seg"
    and "outputs = py_split CHR '' '' (strip seg)"
    and "length m = k" and "length d = k"
  shows "(processLine line (m, d) = Inl IndexError \<longleftrightarrow>
            (\<exists>i<length outputs. k \<le> i \<and> (outputs ! i = ''1'' \<or> outputs ! i = ''x''))) \<and>
         ((\<forall>i<length outputs. k \<le> i \<longrightarrow> outputs ! i \<noteq> ''1'' \<and> outputs ! i \<noteq> ''x'') \<longrightarrow>
            (\<exists>m' d'. processLine line (m, d) = Inr (m', d') \<and> length m' = k \<and> length d' = k \<and>
               (\<forall>j<k. m' ! j = m ! j @
                    (if j < length outputs \<and> outputs ! j = ''1'' then inputs else []) \<and>
                  d' ! j = d ! j @
                    (if j < length outputs \<and> outputs ! j = ''x'' then inputs else [])))) \<and>
         (\<forall>lines. line \<in> set lines \<and> outFuncCount (lines ! 0) = Inr k \<and>
            (\<exists>i<length outputs. k \<le> i \<and> (outputs ! i = ''1'' \<or> outputs ! i = ''x'')) \<longrightarrow>
            (\<exists>e. main_compile lines = Inl e))"
proof -
  have pl: "processLine line st = classify inputs 0 outputs st" for st
    using processLine_ok [OF assms(1,2)] assms(3) by simp
  have fails: "processLine line (m1, d1) = Inl IndexError"
    if s: "\<exists>i<length outputs. k \<le> i \<and> (outputs ! i = ''1'' \<or> outputs ! i = ''x'')"
      and l: "length m1 = k" "length d1 = k" for m1 d1 :: "int list list"
  proof -
    have "\<exists>i<length outputs. (outputs ! i = ''1'' \<and> length m1 \<le> 0 + i) \<or>
        (outputs ! i = ''x'' \<and> length d1 \<le> 0 + i)"
      using s l by auto
    then show ?thesis unfolding pl by (rule classify_fails)
  qed
  have ok: "\<exists>m' d'. processLine line (m, d) = Inr (m', d') \<and> length m' = k \<and> length d' = k \<and>
               (\<forall>j<k. m' ! j = m ! j @
                    (if j < length outputs \<and> outputs ! j = ''1'' then inputs else []) \<and>
                  d' ! j = d ! j @
                    (if j < length outputs \<and> outputs ! j = ''x'' then inputs else []))"
    if n: "\<forall>i<length outputs. k \<le> i \<longrightarrow> outputs ! i \<noteq> ''1'' \<and> outputs ! i \<noteq> ''x''"
  proof -
    have "(outputs ! i = ''1'' \<longrightarrow> 0 + i < length m) \<and>
       (outputs ! i = ''x'' \<longrightarrow> 0 + i < length d)" if i: "i < length outputs" for i
    proof (cases "k \<le> i")
      case True
      then show ?thesis using n i by simp
    next
      case False
      then show ?thesis using assms(4,5) by simp
    qed
    then have "\<forall>i<length outputs. (outputs ! i = ''1'' \<longrightarrow> 0 + i < length m) \<and>
       (outputs ! i = ''x'' \<longrightarrow> 0 + i < length d)"
      by blast
    then have "\<exists>st. classify inputs 0 outputs (m, d) = Inr st"
      by (rule classify_succeeds)
    then obtain m' d' where cl: "classify inputs 0 outputs (m, d) = Inr (m', d')"
      by auto
    have len: "length m' = k" "length d' = k"
      using classify_Inr_length [OF cl] assms(4,5) by simp_all
    have each: "m' ! j = m ! j @ (if j < length outputs \<and> outputs ! j = ''1'' then inputs else []) \<and>
        d' ! j = d ! j @ (if j < length outputs \<and> outputs ! j = ''x'' then inputs else [])"
      if j: "j < k" for j
    proof (cases "j < length outputs")
      case True
      then show ?thesis
        using classify_Inr_minterms [OF cl True] classify_Inr_dnc [OF cl True] j assms(4,5)
        by simp
    next
      case False
      then show ?thesis
        using classify_Inr_rest [OF cl, of j] j assms(4,5) by simp
    qed
    show ?thesis
    proof (intro exI conjI)
      show "processLine line (m, d) = Inr (m', d')" using pl cl by simp
      show "length m' = k" "length d' = k" by (rule len)+
      show "\<forall>j<k. m' ! j = m ! j @
                    (if j < length outputs \<and> outputs ! j = ''1'' then inputs else []) \<and>
                  d' ! j = d ! j @
                    (if j < length outputs \<and> outputs ! j = ''x'' then inputs else [])"
        using each by blast
    qed
  qed
  have iff: "processLine line (m, d) = Inl IndexError \<longleftrightarrow>
            (\<exists>i<length outputs. k \<le> i \<and> (outputs ! i = ''1'' \<or> outputs ! i = ''x''))"
  proof
    assume e: "processLine line (m, d) = Inl IndexError"
    show "\<exists>i<length outputs. k \<le> i \<and> (outputs ! i = ''1'' \<or> outputs ! i = ''x'')"
    proof (rule ccontr)
      assume "\<not> (\<exists>i<length outputs. k \<le> i \<and> (outputs ! i = ''1'' \<or> outputs ! i = ''x''))"
      then have "\<forall>i<length outputs. k \<le> i \<longrightarrow> outputs ! i \<noteq> ''1'' \<and> outputs ! i \<noteq> ''x''"
        by blast
      then obtain m' d' where "processLine line (m, d) = Inr (m', d')"
        using ok by blast
      then show False using e by simp
    qed
  next
    assume "\<exists>i<length outputs. k \<le> i \<and> (outputs ! i = ''1'' \<or> outputs ! i = ''x'')"
    then show "processLine line (m, d) = Inl IndexError"
      using assms(4,5) by (rule fails)
  qed
  have table: "\<exists>e. main_compile lines = Inl e"
    if t: "line \<in> set lines" "outFuncCount (lines ! 0) = Inr k"
      "\<exists>i<length outputs. k \<le> i \<and> (outputs ! i = ''1'' \<or> outputs ! i = ''x'')" for lines
  proof (rule main_compile_fail_at [OF t(1)])
    fix k' and m1 d1 :: "int list list"
    assume "outFuncCount (lines ! 0) = Inr k'" "length m1 = k'" "length d1 = k'"
    then have "length m1 = k" "length d1 = k" using t(2) by simp_all
    then have "processLine line (m1, d1) = Inl IndexError" using t(3) fails by blast
    then show "\<exists>e. processLine line (m1, d1) = Inl e" by blast
  qed
  show ?thesis
  proof (intro conjI allI impI)
    show "processLine line (m, d) = Inl IndexError \<longleftrightarrow>
            (\<exists>i<length outputs. k \<le> i \<and> (outputs ! i = ''1'' \<or> outputs ! i = ''x''))"
      by (rule iff)
  next
    assume "\<forall>i<length outputs. k \<le> i \<longrightarrow> outputs ! i \<noteq> ''1'' \<and> outputs ! i \<noteq> ''x''"
    then show "\<exists>m' d'. processLine line (m, d) = Inr (m', d') \<and> length m' = k \<and> length d' = k \<and>
               (\<forall>j<k. m' ! j = m ! j @
                    (if j < length outputs \<and> outputs ! j = ''1'' then inputs else []) \<and>
                  d' ! j = d ! j @
                    (if j < length outputs \<and> outputs ! j = ''x'' then inputs else []))"
      by (rule ok)
  next
    fix lines
    assume "line \<in> set lines \<and> outFuncCount (lines ! 0) = Inr k \<and>
            (\<exists>i<length outputs. k \<le> i \<and> (outputs ! i = ''1'' \<or> outputs ! i = ''x''))"
    then show "\<exists>e. main_compile lines = Inl e"
      using table by blast
  qed
qed

theorem output_count_mismatch_witness:
  "fromRowToNumbers (strip (hd (py_split CHR ''|'' ''0 1 | 1\<newline>''))) = Inr [1] \<and>
   nth_item (py_split CHR ''|'' ''0 1 | 1\<newline>'') 1 = Inr '' 1\<newline>'' \<and>
   [''1''] = py_split CHR '' '' (strip '' 1\<newline>'') \<and>
   processLine ''0 1 | 1\<newline>'' ([[0], []], [[], []]) \<noteq> Inl IndexError \<and>
   (\<exists>m' d'. processLine ''0 1 | 1\<newline>'' ([[0], []], [[], []]) = Inr (m', d') \<and>
      m' ! 0 = [0, 1] \<and> m' ! 1 = [] \<and> d' ! 0 = [] \<and> d' ! 1 = [])"
proof -
  have h1: "fromRowToNumbers (strip (hd (py_split CHR ''|'' ''0 1 | 1\<newline>''))) = Inr [1]"
    by code_simp
  have h2: "nth_item (py_split CHR ''|'' ''0 1 | 1\<newline>'') 1 = Inr '' 1\<newline>''"
    by code_simp
  have h3: "[''1''] = py_split CHR '' '' (strip '' 1\<newline>'')"
    by code_simp
  have h4: "length [[0], []::int list] = 2" "length [[], []::int list] = 2"
    by simp_all
  note t = output_count_mismatch [OF h1 h2 h3 h4]
  have none: "\<not> (\<exists>i<length [''1'']. (2::nat) \<le> i \<and> ([''1''] ! i = ''1'' \<or> [''1''] ! i = ''x''))"
    by simp
  have a: "processLine ''0 1 | 1\<newline>'' ([[0], []], [[], []]) \<noteq> Inl IndexError"
    using t none by blast
  have "\<forall>i<length [''1'']. (2::nat) \<le> i \<longrightarrow> [''1''] ! i \<noteq> ''1'' \<and> [''1''] ! i \<noteq> ''x''"
    by simp
  then obtain m' d' where b: "processLine ''0 1 | 1\<newline>'' ([[0], []], [[], []]) = Inr (m', d')"
      and c: "\<forall>j<2. m' ! j = [[0], []] ! j @ (if j < length [''1''] \<and> [''1''] ! j = ''1'' then [1] else []) \<and>
          d' ! j = [[], []] ! j @ (if j < length [''1''] \<and> [''1''] ! j = ''x'' then [1] else [])"
    using t by blast
  have "m' ! 0 = [0, 1] \<and> d' ! 0 = []" using c [rule_format, of 0] by simp
  moreover have "m' ! 1 = [] \<and> d' ! 1 = []" using c [rule_format, of 1] by simp
  ultimately show ?thesis using h1 h2 h3 a b by blast
qed

text \<open>
  A table whose first line has two output symbols and whose second line has one compiles:
  the second line feeds column 0 only.
\<close>

theorem output_count_counterexample:
  "main_compile [''0 0 | 1 0\<newline>'', ''0 1 | 1\<newline>''] = Inr (2, [[0, 1], []], [[], []])"
  by code_simp

section \<open>Blank lines\<close>

text \<open>
  C6 (as the code has it).  Blank lines are not skipped.  When the table has a line that is
  empty or consists of whitespace only (a line break alone, for one), the compilation fails
  and produces no sets: the input pattern of that line is the empty string, for which the
  base-2 conversion raises \<open>ValueError\<close>.
\<close>

theorem blank_line_aborts:
  assumes "line \<in> set lines" and "strip line = []"
  shows "(\<exists>e. main_compile lines = Inl e) \<and>
         (\<forall>st. processLine line st = Inl (ValueError []))"
proof -
  have row: "processLine line st = Inl (ValueError [])" for st
    using assms(2) by (rule blank_line_fails)
  have "\<exists>e. main_compile lines = Inl e"
    by (rule main_compile_fail_at [OF assms(1)]) (simp add: row)
  then show ?thesis using row by blast
qed

theorem blank_line_aborts_witness:
  "''\<newline>'' \<in> set [''0 0 | 1\<newline>'', ''\<newline>''] \<and> strip ''\<newline>'' = [] \<and>
   (\<exists>e. main_compile [''0 0 | 1\<newline>'', ''\<newline>''] = Inl e) \<and>
   processLine ''\<newline>'' ([[0]], [[]]) = Inl (ValueError [])"
proof -
  have h1: "''\<newline>'' \<in> set [''0 0 | 1\<newline>'', ''\<newline>'']" by simp
  have h2: "strip ''\<newline>'' = []" by code_simp
  show ?thesis using blank_line_aborts [OF h1 h2] h1 h2 by blast
qed

text \<open>
  The table \<open>0 0 | 1\<close> followed by an empty line fails, while the same table without the
  empty line compiles.
\<close>

theorem blank_line_counterexample:
  "main_compile [''0 0 | 1\<newline>'', ''\<newline>''] = Inl (ValueError []) \<and>
   main_compile [''0 0 | 1\<newline>''] = Inr (2, [[0]], [[]])"
proof
  show "main_compile [''0 0 | 1\<newline>'', ''\<newline>''] = Inl (ValueError [])" by code_simp
  show "main_compile [''0 0 | 1\<newline>''] = Inr (2, [[0]], [[]])" by code_simp
qed

section \<open>The commands handed to the reducer\<close>










lemma commands_run_append: "commands_run (a @ b) = commands_run a @ commands_run b"
  by (simp add: commands_run_def)





lemma invocations_le: "invocations reducer cmds \<le> length cmds"
  by (induction cmds) auto






lemma zip_by_index:
  "length ys = length xs \<Longrightarrow> zip xs ys = map (\<lambda>j. (xs ! j, ys ! j)) [0..<length xs]"
  by (rule nth_equalityI) simp_all









section \<open>Determinism\<close>



end
